theory Spec2Isabelle
  imports Main "HOL-Library.Word"
begin

section \<open>The data pool of \<open>datapool.go\<close>\<close>

text \<open>
  The package keeps named cells, each holding one value and the time of its last write.
  The embedding is sequential: one call runs from its first line to its return before the
  next one starts (calls of \<open>Bucket\<close> that overlap are modelled apart, below). Each method with a pointer receiver \<open>p *DataPool\<close> takes the pool
  as it is before the call and returns the pool as it is after the call together with the
  results of the Go function.

  \<^item> \<open>int64\<close> is a 64-bit word; the comparison \<open>>\<close> of the source is the signed one
    (\<open><s\<close> with the sides swapped) and \<open>+\<close>, \<open>-\<close> wrap around as in Go.
  \<^item> Go's \<open>int\<close> (identifiers, \<open>len\<close>) is \<open>int\<close>: the source only compares
    identifiers with \<open>0\<close> and \<open>len(p.buckets)\<close> and subtracts \<open>1\<close> from a length that
    is at least \<open>1\<close>.
  \<^item> A value of type \<open>any\<close> is \<open>'v option\<close>, \<open>None\<close> being \<open>nil\<close>.
  \<^item> \<open>time.Now().UnixNano()\<close> reads the wall clock; the reading is an argument
    \<open>now\<close> of \<open>put\<close>.
  \<^item> The field \<open>guard\<close> of a cell is left out: \<open>get\<close> and \<open>put\<close> take the lock on
    entry and release it on return, which in a sequential run leaves it as it was.
\<close>

type_synonym int64 = "64 word"

text \<open>\<open>type bucket struct\<close>: a cell.\<close>

record 'v bucket =
  name :: string
  "value" :: "'v option"
  timestamp :: int64

text \<open>\<open>type DataPool struct\<close>: the cells in the order of their creation.\<close>

record 'v DataPool =
  buckets :: "'v bucket list"

text \<open>
  \<open>type Bucket struct\<close>: the handle. Its field \<open>pool\<close> points to the pool whose state
  is passed along, so the handle's methods below take that state where the source
  dereferences \<open>b.pool\<close>; the field \<open>id\<close> is \<open>idx\<close> here.
\<close>

record Bucket =
  idx :: int

definition NewDataPool :: "'v DataPool" where
  "NewDataPool = \<lparr>buckets = []\<rparr>"

text \<open>The test \<open>id < 0 || id >= len(p.buckets)\<close> that opens \<open>get\<close> and \<open>put\<close>.\<close>

definition out_of_range :: "'v DataPool \<Rightarrow> int \<Rightarrow> bool" where
  "out_of_range p i \<longleftrightarrow> i < 0 \<or> i \<ge> int (length (buckets p))"

text \<open>\<open>func (p *DataPool) get(id int, timestamp int64) (any, int64, bool)\<close>\<close>

definition get :: "'v DataPool \<Rightarrow> int \<Rightarrow> int64 \<Rightarrow> 'v DataPool \<times> 'v option \<times> int64 \<times> bool" where
  "get p i ts =
     (if out_of_range p i then (p, None, ts, False)
      else (p, value (buckets p ! nat i), timestamp (buckets p ! nat i),
            ts <s timestamp (buckets p ! nat i)))"

text \<open>
  \<open>func (p *DataPool) put(id int, value any) int64\<close>. The two assignments update the
  cell in place; the result is read back from the cell after them.
\<close>

definition put :: "'v DataPool \<Rightarrow> int \<Rightarrow> 'v option \<Rightarrow> int64 \<Rightarrow> 'v DataPool \<times> int64" where
  "put p i v now =
     (if out_of_range p i then (p, 0)
      else
        (let p1 = p\<lparr>buckets := (buckets p)[nat i := (buckets p ! nat i)\<lparr>value := v\<rparr>]\<rparr>;
             p2 = p1\<lparr>buckets := (buckets p1)[nat i := (buckets p1 ! nat i)\<lparr>timestamp := now\<rparr>]\<rparr>
         in (p2, timestamp (buckets p2 ! nat i))))"

text \<open>
  The loop \<open>for i, b := range p.buckets\<close> of \<open>Bucket\<close>: the index of the first cell
  with the name, counting from \<open>i\<close>.
\<close>

fun scan :: "'v bucket list \<Rightarrow> string \<Rightarrow> int \<Rightarrow> int option" where
  "scan [] n i = None"
| "scan (b # bs) n i = (if name b = n then Some i else scan bs n (i + 1))"

text \<open>\<open>func (p *DataPool) Bucket(name string) Bucket\<close>\<close>

definition Bucket :: "'v DataPool \<Rightarrow> string \<Rightarrow> 'v DataPool \<times> Bucket" where
  "Bucket p n =
     (case scan (buckets p) n 0 of
        Some i \<Rightarrow> (p, \<lparr>idx = i\<rparr>)
      | None \<Rightarrow>
          (let b = \<lparr>name = n, value = None, timestamp = 0\<rparr>;
               p' = p\<lparr>buckets := buckets p @ [b]\<rparr>
           in (p', \<lparr>idx = int (length (buckets p')) - 1\<rparr>)))"

text \<open>\<open>func (b *Bucket) Get(timestamp int64) (any, int64, bool)\<close>\<close>

definition Get :: "'v DataPool \<Rightarrow> Bucket \<Rightarrow> int64 \<Rightarrow> 'v DataPool \<times> 'v option \<times> int64 \<times> bool" where
  "Get p b ts = get p (idx b) ts"

text \<open>\<open>func (b *Bucket) Put(value any) int64\<close>\<close>

definition Put :: "'v DataPool \<Rightarrow> Bucket \<Rightarrow> 'v option \<Rightarrow> int64 \<Rightarrow> 'v DataPool \<times> int64" where
  "Put p b v now = put p (idx b) v now"

subsection \<open>Runs of calls\<close>

text \<open>
  A call of one of the three methods of the pool with its arguments (the calls through a
  handle are calls of \<open>get\<close> and \<open>put\<close> with the handle's identifier), and the pool
  after a list of calls made one after the other.
\<close>

datatype 'v call =
  CallBucket string
| CallGet int int64
| CallPut int "'v option" int64

fun step :: "'v DataPool \<Rightarrow> 'v call \<Rightarrow> 'v DataPool" where
  "step p (CallBucket n) = fst (Bucket p n)"
| "step p (CallGet i ts) = fst (get p i ts)"
| "step p (CallPut i v now) = fst (put p i v now)"

fun run :: "'v DataPool \<Rightarrow> 'v call list \<Rightarrow> 'v DataPool" where
  "run p [] = p"
| "run p (c # cs) = run (step p c) cs"

text \<open>Whether a call is a \<open>put\<close> on the cell \<open>i\<close>.\<close>

fun is_put_on :: "int \<Rightarrow> 'v call \<Rightarrow> bool" where
  "is_put_on i (CallPut j v now) = (j = i)"
| "is_put_on i c = False"

text \<open>
  A cell that holds what \<open>Bucket\<close> puts into a new cell: no value and the timestamp 0
  (said of the position \<open>i\<close>, when there is a cell at that position).
\<close>

definition unwritten :: "'v DataPool \<Rightarrow> int \<Rightarrow> bool" where
  "unwritten p i \<longleftrightarrow>
     (nat i < length (buckets p) \<longrightarrow>
        value (buckets p ! nat i) = None \<and> timestamp (buckets p ! nat i) = 0)"

subsection \<open>Overlapping calls of \<open>Bucket\<close>\<close>

text \<open>
  \<open>DataPool\<close> has no lock and \<open>Bucket\<close> takes none, so a goroutine inside
  \<open>Bucket\<close> can be overtaken between the loop over the cells (lines 74 to 81) and the
  creation of the new cell (lines 83 to 92). The two parts of the body:
\<close>

definition Bucket_scan :: "'v DataPool \<Rightarrow> string \<Rightarrow> int option" where
  "Bucket_scan p n = scan (buckets p) n 0"

definition Bucket_append :: "'v DataPool \<Rightarrow> string \<Rightarrow> 'v DataPool \<times> Bucket" where
  "Bucket_append p n =
     (let b = \<lparr>name = n, value = None, timestamp = 0\<rparr>;
          p' = p\<lparr>buckets := buckets p @ [b]\<rparr>
      in (p', \<lparr>idx = int (length (buckets p')) - 1\<rparr>))"

text \<open>
  A goroutine that calls \<open>Bucket\<close> with a name: it has not yet run the loop, or it has
  run the loop without finding the name and is about to create the cell, or it has
  returned a handle.
\<close>

datatype goroutine =
  Ready string
| Missed string
| Returned Bucket

text \<open>The next part of the body of a goroutine, run on the pool as it is then.\<close>

fun advance :: "'v DataPool \<Rightarrow> goroutine \<Rightarrow> 'v DataPool \<times> goroutine" where
  "advance p (Ready n) =
     (case Bucket_scan p n of
        Some i \<Rightarrow> (p, Returned \<lparr>idx = i\<rparr>)
      | None \<Rightarrow> (p, Missed n))"
| "advance p (Missed n) = (case Bucket_append p n of (p', h) \<Rightarrow> (p', Returned h))"
| "advance p (Returned h) = (p, Returned h)"

text \<open>
  A schedule names, step by step, the goroutine that runs its next part; a number that
  names no goroutine is passed over.
\<close>

fun interleave :: "'v DataPool \<times> goroutine list \<Rightarrow> nat list \<Rightarrow> 'v DataPool \<times> goroutine list" where
  "interleave s [] = s"
| "interleave (p, gs) (k # ks) =
     (if k < length gs
      then (case advance p (gs ! k) of (p', g) \<Rightarrow> interleave (p', gs[k := g]) ks)
      else interleave (p, gs) ks)"

subsection \<open>The pool of the example scenario\<close>

text \<open>\<open>pool := NewDataPool(); h := pool.Bucket("x")\<close>, and the same pool after \<open>pool.Bucket("y")\<close>.\<close>

definition pool_x :: "nat DataPool" where
  "pool_x = fst (Bucket NewDataPool ''x'')"

definition handle_x :: Bucket where
  "handle_x = snd (Bucket (NewDataPool :: nat DataPool) ''x'')"

definition pool_xy :: "nat DataPool" where
  "pool_xy = fst (Bucket pool_x ''y'')"

text \<open>The largest and the smallest \<open>int64\<close>.\<close>

definition MaxInt64 :: int64 where
  "MaxInt64 = 0x7FFFFFFFFFFFFFFF"

definition MinInt64 :: int64 where
  "MinInt64 = 0x8000000000000000"

section \<open>Auxiliary facts\<close>

subsection \<open>The example pools\<close>

lemma pool_x_eq: "pool_x = \<lparr>buckets = [\<lparr>name = ''x'', value = None, timestamp = 0\<rparr>]\<rparr>"
  by (simp add: pool_x_def Bucket_def NewDataPool_def)

lemma handle_x_eq: "handle_x = \<lparr>idx = 0\<rparr>"
  by (simp add: handle_x_def Bucket_def NewDataPool_def)

lemma pool_xy_eq:
  "pool_xy = \<lparr>buckets = [\<lparr>name = ''x'', value = None, timestamp = 0\<rparr>,
                         \<lparr>name = ''y'', value = None, timestamp = 0\<rparr>]\<rparr>"
  by (simp add: pool_xy_def pool_x_eq Bucket_def)

subsection \<open>\<open>get\<close> and \<open>put\<close>\<close>

lemma in_range_nat:
  assumes "\<not> out_of_range p i"
  shows "0 \<le> i" and "nat i < length (buckets p)"
  using assms by (auto simp: out_of_range_def)

lemma put_in_range:
  assumes "\<not> out_of_range p i"
  shows "put p i v now =
    (p\<lparr>buckets := (buckets p)[nat i := (buckets p ! nat i)\<lparr>value := v, timestamp := now\<rparr>]\<rparr>, now)"
proof -
  from assms have "nat i < length (buckets p)"
    by (rule in_range_nat)
  then show ?thesis
    using assms by (simp add: put_def Let_def)
qed

lemma put_names: "map name (buckets (fst (put p i v now))) = map name (buckets p)"
proof (cases "out_of_range p i")
  case True
  then show ?thesis by (simp add: put_def)
next
  case False
  then have "nat i < length (buckets p)" by (rule in_range_nat)
  then show ?thesis
    using False by (simp add: put_in_range map_update list_update_same_conv)
qed

lemma put_length: "length (buckets (fst (put p i v now))) = length (buckets p)"
  using put_names [of p i v now, THEN arg_cong, of length] by simp

lemma get_pool: "fst (get p i ts) = p"
  by (simp add: get_def)

subsection \<open>The scan of the names\<close>

lemma scan_None_iff: "scan bs n k = None \<longleftrightarrow> n \<notin> name ` set bs"
  by (induction bs arbitrary: k) auto

lemma scan_Some_bounds:
  "scan bs n k = Some i \<Longrightarrow> k \<le> i \<and> i < k + int (length bs) \<and> name (bs ! nat (i - k)) = n"
proof (induction bs arbitrary: k)
  case Nil
  then show ?case by simp
next
  case (Cons b bs)
  show ?case
  proof (cases "name b = n")
    case True
    with Cons.prems show ?thesis by simp
  next
    case False
    with Cons.prems have s: "scan bs n (k + 1) = Some i" by simp
    from Cons.IH [OF s] have *: "k + 1 \<le> i" "i < k + 1 + int (length bs)"
      "name (bs ! nat (i - (k + 1))) = n" by simp_all
    from * have "nat (i - k) = Suc (nat (i - (k + 1)))" by linarith
    with * show ?thesis by simp
  qed
qed

lemma scan_append_found: "scan bs n k = Some i \<Longrightarrow> scan (bs @ cs) n k = Some i"
  by (induction bs arbitrary: k) (auto split: if_splits)

lemma scan_append_new:
  "scan bs n k = None \<Longrightarrow> name b = n \<Longrightarrow> scan (bs @ [b]) n k = Some (k + int (length bs))"
  by (induction bs arbitrary: k) (auto split: if_splits)

subsection \<open>\<open>Bucket\<close>\<close>

lemma Bucket_found:
  "scan (buckets p) n 0 = Some i \<Longrightarrow> Bucket p n = (p, \<lparr>idx = i\<rparr>)"
  by (simp add: Bucket_def)

lemma Bucket_new:
  "scan (buckets p) n 0 = None \<Longrightarrow>
   Bucket p n = (p\<lparr>buckets := buckets p @ [\<lparr>name = n, value = None, timestamp = 0\<rparr>]\<rparr>,
                 \<lparr>idx = int (length (buckets p))\<rparr>)"
  by (simp add: Bucket_def Let_def)

lemma Bucket_idx_scan:
  "scan (buckets (fst (Bucket p n))) n 0 = Some (idx (snd (Bucket p n)))"
proof (cases "scan (buckets p) n 0")
  case None
  then show ?thesis
    by (simp add: Bucket_new scan_append_new)
next
  case (Some i)
  then show ?thesis
    by (simp add: Bucket_found)
qed

lemma Bucket_idx_in_range: "\<not> out_of_range (fst (Bucket p n)) (idx (snd (Bucket p n)))"
  using scan_Some_bounds [OF Bucket_idx_scan, of p n] by (simp add: out_of_range_def)

lemma Bucket_buckets:
  "buckets (fst (Bucket p n)) = buckets p \<or>
   (n \<notin> name ` set (buckets p) \<and>
    buckets (fst (Bucket p n)) = buckets p @ [\<lparr>name = n, value = None, timestamp = 0\<rparr>])"
proof (cases "scan (buckets p) n 0")
  case None
  then show ?thesis by (simp add: Bucket_new scan_None_iff)
next
  case (Some i)
  then show ?thesis by (simp add: Bucket_found)
qed

subsection \<open>Runs\<close>

lemma step_names:
  "map name (buckets (step p c)) = map name (buckets p) \<or>
   (\<exists>n. n \<notin> name ` set (buckets p) \<and> map name (buckets (step p c)) = map name (buckets p) @ [n])"
proof (cases c)
  case (CallBucket n)
  then show ?thesis using Bucket_buckets [of p n] by auto
next
  case (CallGet i ts)
  then show ?thesis by (simp add: get_pool)
next
  case (CallPut i v now)
  then show ?thesis by (simp add: put_names)
qed

lemma step_distinct:
  "distinct (map name (buckets p)) \<Longrightarrow> distinct (map name (buckets (step p c)))"
  using step_names [of p c] by auto

lemma run_distinct:
  "distinct (map name (buckets p)) \<Longrightarrow> distinct (map name (buckets (run p cs)))"
  by (induction cs arbitrary: p) (simp_all add: step_distinct)

lemma run_names: "\<exists>ns. map name (buckets (run p cs)) = map name (buckets p) @ ns"
proof (induction cs arbitrary: p)
  case Nil
  then show ?case by simp
next
  case (Cons c cs)
  from step_names [of p c] obtain ns1
    where 1: "map name (buckets (step p c)) = map name (buckets p) @ ns1"
    by auto
  from Cons.IH [of "step p c"] obtain ns2
    where 2: "map name (buckets (run (step p c) cs)) = map name (buckets (step p c)) @ ns2"
    by auto
  from 1 2 show ?case by simp
qed

lemma run_length: "length (buckets p) \<le> length (buckets (run p cs))"
proof -
  from run_names [of p cs] obtain ns
    where "map name (buckets (run p cs)) = map name (buckets p) @ ns" ..
  then have "length (map name (buckets (run p cs))) = length (map name (buckets p) @ ns)"
    by simp
  then show ?thesis by simp
qed

lemma run_take_names:
  "take (length (buckets p)) (map name (buckets (run p cs))) = map name (buckets p)"
proof -
  from run_names [of p cs] obtain ns
    where "map name (buckets (run p cs)) = map name (buckets p) @ ns" ..
  then show ?thesis by simp
qed

lemma unwritten_step:
  assumes "unwritten p i" and "0 \<le> i" and "\<not> is_put_on i c"
  shows "unwritten (step p c) i"
proof (cases c)
  case (CallBucket n)
  from Bucket_buckets [of p n] show ?thesis
  proof
    assume "buckets (fst (Bucket p n)) = buckets p"
    with assms(1) CallBucket show ?thesis by (simp add: unwritten_def)
  next
    assume "n \<notin> name ` set (buckets p) \<and>
      buckets (fst (Bucket p n)) = buckets p @ [\<lparr>name = n, value = None, timestamp = 0\<rparr>]"
    with assms(1) CallBucket show ?thesis
      by (auto simp: unwritten_def nth_append)
  qed
next
  case (CallGet j ts)
  with assms(1) show ?thesis by (simp add: get_pool)
next
  case (CallPut j v now)
  show ?thesis
  proof (cases "out_of_range p j")
    case True
    with assms(1) CallPut show ?thesis by (simp add: put_def)
  next
    case False
    from assms(3) CallPut have "j \<noteq> i" by simp
    moreover from False have "0 \<le> j" by (rule in_range_nat)
    ultimately have "nat j \<noteq> nat i" using assms(2) by simp
    with assms(1) CallPut show ?thesis
      by (simp add: put_in_range [OF False] unwritten_def)
  qed
qed

lemma unwritten_run:
  assumes "unwritten p i" and "0 \<le> i" and "\<forall>c \<in> set cs. \<not> is_put_on i c"
  shows "unwritten (run p cs) i"
  using assms
proof (induction cs arbitrary: p)
  case Nil
  then show ?case by simp
next
  case (Cons c cs)
  from Cons.prems have "unwritten (step p c) i"
    by (simp add: unwritten_step)
  with Cons.prems Cons.IH [of "step p c"] show ?case by simp
qed

text \<open>A cell is left alone by every call that is not a \<open>put\<close> on it.\<close>

lemma cell_step:
  assumes "nat i < length (buckets p)" and "0 \<le> i" and "\<not> is_put_on i c"
  shows "buckets (step p c) ! nat i = buckets p ! nat i"
proof (cases c)
  case (CallBucket n)
  with Bucket_buckets [of p n] assms(1) show ?thesis
    by (auto simp: nth_append)
next
  case (CallGet j ts)
  then show ?thesis by (simp add: get_pool)
next
  case (CallPut j v now)
  show ?thesis
  proof (cases "out_of_range p j")
    case True
    with CallPut show ?thesis by (simp add: put_def)
  next
    case False
    from assms(3) CallPut have "j \<noteq> i" by simp
    moreover from False have "0 \<le> j" by (rule in_range_nat)
    ultimately have "nat j \<noteq> nat i" using assms(2) by simp
    with CallPut show ?thesis
      by (simp add: put_in_range [OF False])
  qed
qed

lemma cell_run:
  assumes "nat i < length (buckets p)" and "0 \<le> i" and "\<forall>c \<in> set cs. \<not> is_put_on i c"
  shows "buckets (run p cs) ! nat i = buckets p ! nat i"
  using assms
proof (induction cs arbitrary: p)
  case Nil
  then show ?case by simp
next
  case (Cons c cs)
  from Cons.prems have 1: "buckets (step p c) ! nat i = buckets p ! nat i"
    by (simp add: cell_step)
  have "length (buckets p) \<le> length (buckets (step p c))"
    using run_length [of p "[c]"] by simp
  with Cons.prems(1) have 2: "nat i < length (buckets (step p c))" by simp
  from Cons.IH [OF 2] Cons.prems have "buckets (run (step p c) cs) ! nat i = buckets (step p c) ! nat i"
    by simp
  with 1 show ?case by simp
qed

lemma get_cell:
  assumes "0 \<le> i" and "nat i < length (buckets p)"
  shows "get p i ts = (p, value (buckets p ! nat i), timestamp (buckets p ! nat i),
     ts <s timestamp (buckets p ! nat i))"
proof -
  from assms have "i < int (length (buckets p))" by linarith
  with assms(1) show ?thesis by (simp add: get_def out_of_range_def)
qed

lemma put_cell:
  assumes "0 \<le> i" and "nat i < length (buckets p)" and "put p i v now = (p1, t1)"
  shows "t1 = now" and "nat i < length (buckets p1)"
    and "value (buckets p1 ! nat i) = v" and "timestamp (buckets p1 ! nat i) = now"
proof -
  from assms(1,2) have "i < int (length (buckets p))" by linarith
  with assms(1) have r: "\<not> out_of_range p i" by (simp add: out_of_range_def)
  from assms(3) have p1: "p1 = p\<lparr>buckets := (buckets p)
      [nat i := (buckets p ! nat i)\<lparr>value := v, timestamp := now\<rparr>]\<rparr>" and "t1 = now"
    by (auto simp: put_in_range [OF r])
  then show "t1 = now" by simp
  from p1 assms(2) show "nat i < length (buckets p1)" by simp
  from p1 assms(2) show "value (buckets p1 ! nat i) = v" by simp
  from p1 assms(2) show "timestamp (buckets p1 ! nat i) = now" by simp
qed

lemma put_then_run:
  assumes "0 \<le> i" and "nat i < length (buckets p)" and "put p i v now = (p1, t1)"
    and "\<forall>c \<in> set cs. \<not> is_put_on i c"
  shows "get (run p1 cs) i ts = (run p1 cs, v, now, ts <s now)"
proof -
  note c = put_cell [OF assms(1-3)]
  from c(2) assms(1,4) have e: "buckets (run p1 cs) ! nat i = buckets p1 ! nat i"
    by (rule cell_run)
  have "length (buckets p1) \<le> length (buckets (run p1 cs))" by (rule run_length)
  with c(2) have l: "nat i < length (buckets (run p1 cs))" by simp
  show ?thesis
    by (simp add: get_cell [OF assms(1) l] e c)
qed

subsection \<open>The ends of \<open>int64\<close>\<close>

lemma sint_MinInt64: "sint MinInt64 = - (2 ^ 63)"
  by (simp add: MinInt64_def)

lemma sint_MaxInt64: "sint MaxInt64 = 2 ^ 63 - 1"
  by (simp add: MaxInt64_def)

lemma sint64_range: "- (2 ^ 63) \<le> sint (t :: int64) \<and> sint t < 2 ^ 63"
  using sint_ge [of t] sint_lt [of t] by simp

lemma eq_MinInt64_iff: "t = MinInt64 \<longleftrightarrow> sint t = - (2 ^ 63)"
  using sint_MinInt64 by (metis signed_word_eqI)

lemma eq_MaxInt64_iff: "t = MaxInt64 \<longleftrightarrow> sint t = 2 ^ 63 - 1"
  using sint_MaxInt64 by (metis signed_word_eqI)

lemma sint_pred64:
  assumes "t \<noteq> MinInt64"
  shows "sint (t - 1) = sint t - 1"
proof -
  from assms have "sint t \<noteq> - (2 ^ 63)" by (simp add: eq_MinInt64_iff)
  with sint64_range [of t] have "- (2 ^ 63) \<le> sint t - 1" "sint t - 1 < 2 ^ 63"
    by simp_all
  then have "signed_take_bit 63 (sint t - 1) = sint t - 1"
    by (rule signed_take_bit_int_eq_self)
  then show ?thesis by (simp add: sint_word_diff)
qed

lemma sint_succ64:
  assumes "t \<noteq> MaxInt64"
  shows "sint (t + 1) = sint t + 1"
proof -
  from assms have "sint t \<noteq> 2 ^ 63 - 1" by (simp add: eq_MaxInt64_iff)
  with sint64_range [of t] have "- (2 ^ 63) \<le> sint t + 1" "sint t + 1 < 2 ^ 63"
    by simp_all
  then have "signed_take_bit 63 (sint t + 1) = sint t + 1"
    by (rule signed_take_bit_int_eq_self)
  then show ?thesis by (simp add: sint_word_add)
qed

lemma MinInt64_pred: "MinInt64 - 1 = MaxInt64"
  by (simp add: MinInt64_def MaxInt64_def)

lemma MaxInt64_succ: "MaxInt64 + 1 = MinInt64"
  by (simp add: MinInt64_def MaxInt64_def)

lemma pred_sless_iff: "t - 1 <s t \<longleftrightarrow> t \<noteq> MinInt64"
proof (cases "t = MinInt64")
  case True
  then show ?thesis
    by (simp add: MinInt64_pred word_sless_alt sint_MinInt64 sint_MaxInt64)
next
  case False
  then show ?thesis
    by (simp add: word_sless_alt sint_pred64)
qed

lemma succ_sless_iff: "t + 1 <s t \<longleftrightarrow> t = MaxInt64"
proof (cases "t = MaxInt64")
  case True
  then show ?thesis
    by (simp add: MaxInt64_succ word_sless_alt sint_MinInt64 sint_MaxInt64)
next
  case False
  then show ?thesis
    by (simp add: word_sless_alt sint_succ64)
qed

subsection \<open>The two parts of \<open>Bucket\<close>\<close>

text \<open>The two parts, run one after the other, are \<open>Bucket\<close>.\<close>

lemma Bucket_parts:
  "Bucket p n =
     (case Bucket_scan p n of Some i \<Rightarrow> (p, \<lparr>idx = i\<rparr>) | None \<Rightarrow> Bucket_append p n)"
  by (simp add: Bucket_def Bucket_scan_def Bucket_append_def split: option.split)

lemma interleave_alone:
  "interleave (p, [Ready n]) [0, 0] = (fst (Bucket p n), [Returned (snd (Bucket p n))])"
  by (cases "Bucket_scan p n") (simp_all add: Bucket_parts case_prod_beta)

lemma interleave_in_turn:
  "interleave (p, [Ready n, Ready m]) [0, 0, 1, 1] =
     (fst (Bucket (fst (Bucket p n)) m),
      [Returned (snd (Bucket p n)), Returned (snd (Bucket (fst (Bucket p n)) m))])"
  by (cases "Bucket_scan p n"; cases "Bucket_scan (fst (Bucket p n)) m")
    (simp_all add: Bucket_parts case_prod_beta)

section \<open>The claims\<close>

subsection \<open>Reading a cell\<close>

text \<open>
  C1. For an identifier in range, \<open>get\<close> returns the value and the timestamp of the cell,
  and the third result is true exactly when the cell's timestamp, read as a signed
  number, is strictly greater than the timestamp passed in.
\<close>

theorem get_in_range:
  assumes "0 \<le> i" and "i < int (length (buckets p))"
  shows "get p i ts =
    (p, value (buckets p ! nat i), timestamp (buckets p ! nat i),
     sint (timestamp (buckets p ! nat i)) > sint ts)"
  using assms by (simp add: get_def out_of_range_def word_sless_alt)

theorem get_in_range_witness:
  "(0::int) \<le> 0 \<and> (0::int) < int (length (buckets pool_x)) \<and>
   get pool_x 0 5 = (pool_x, None, 0, False) \<and> get pool_x 0 (- 1) = (pool_x, None, 0, True)"
  using get_in_range [of 0 pool_x 5] get_in_range [of 0 pool_x "- 1"]
  by (simp add: pool_x_eq)

text \<open>
  C6. For an identifier out of range (negative, or at least the number of cells),
  \<open>get\<close> returns no value, the timestamp passed in and false, and \<open>put\<close> returns the
  timestamp 0; both leave the pool, hence every cell and the number of cells, as it was.
\<close>

theorem out_of_range_no_op:
  assumes "i < 0 \<or> i \<ge> int (length (buckets p))"
  shows "get p i t = (p, None, t, False) \<and> put p i v now = (p, 0)"
  using assms by (simp add: get_def put_def out_of_range_def)

theorem out_of_range_no_op_witness:
  "((1::int) < 0 \<or> (1::int) \<ge> int (length (buckets pool_x))) \<and>
   get pool_x 1 7 = (pool_x, None, 7, False) \<and> put pool_x 1 (Some 3) 9 = (pool_x, 0) \<and>
   get pool_x (- 1) 7 = (pool_x, None, 7, False) \<and> put pool_x (- 1) (Some 3) 9 = (pool_x, 0)"
  using out_of_range_no_op [of 1 pool_x 7 "Some 3" 9]
    out_of_range_no_op [of "- 1" pool_x 7 "Some 3" 9]
  by (simp add: pool_x_eq)

text \<open>
  C4, as the code has it. In a pool built from a new pool by any calls of \<open>Bucket\<close>,
  \<open>get\<close> and \<open>put\<close>, a cell on which none of the calls is a \<open>put\<close> reads as no value
  and timestamp 0; the third result of \<open>get\<close> is true exactly when the timestamp passed
  in is negative, so it is false for every timestamp from 0 upwards and not for every
  \<open>int64\<close>.
\<close>

theorem never_written_cell:
  assumes "\<forall>c \<in> set cs. \<not> is_put_on i c"
    and "0 \<le> i" and "i < int (length (buckets (run NewDataPool cs)))"
  shows "get (run NewDataPool cs) i ts = (run NewDataPool cs, None, 0, sint ts < 0)"
proof -
  have "unwritten (NewDataPool :: 'a DataPool) i"
    by (simp add: unwritten_def NewDataPool_def)
  then have "unwritten (run (NewDataPool :: 'a DataPool) cs) i"
    using assms(2) assms(1) by (rule unwritten_run)
  moreover from assms(2,3) have "nat i < length (buckets (run (NewDataPool :: 'a DataPool) cs))"
    by simp
  ultimately show ?thesis
    using assms(2,3) by (simp add: unwritten_def get_def out_of_range_def word_sless_alt)
qed

theorem never_written_cell_witness:
  "\<not> is_put_on 0 (CallBucket ''x'' :: nat call) \<and> \<not> is_put_on 0 (CallBucket ''y'' :: nat call) \<and>
   \<not> is_put_on 0 (CallPut 1 (Some 7) 42 :: nat call) \<and> \<not> is_put_on 0 (CallGet 0 3 :: nat call) \<and>
   get (run NewDataPool [CallBucket ''x'', CallBucket ''y'', CallPut 1 (Some (7::nat)) 42, CallGet 0 3])
       0 0 =
     (\<lparr>buckets = [\<lparr>name = ''x'', value = None, timestamp = 0\<rparr>,
                  \<lparr>name = ''y'', value = Some 7, timestamp = 42\<rparr>]\<rparr>, None, 0, False)"
  using never_written_cell
    [of "[CallBucket ''x'', CallBucket ''y'', CallPut 1 (Some (7::nat)) 42, CallGet 0 3]" 0 0]
  by (simp add: NewDataPool_def Bucket_def get_def put_def out_of_range_def)

text \<open>
  C4 as it is worded fails: a cell that was never written is fresh against the compare
  timestamp \<open>-1\<close>, since \<open>0 > -1\<close>.
\<close>

theorem never_written_cell_counterexample:
  "pool_x = run NewDataPool [CallBucket ''x''] \<and>
   Get pool_x handle_x (- 1) = (pool_x, None, 0, True) \<and>
   Get pool_x handle_x (- 1) \<noteq> (pool_x, None, 0, False)"
  by (simp add: pool_x_def handle_x_def Bucket_def NewDataPool_def Get_def get_def
      out_of_range_def)

subsection \<open>Writing a cell\<close>

text \<open>
  C2, as the code has it. Through a handle with an identifier in range, \<open>Put\<close> returns
  the clock reading it stored; after it, and after any further calls none of which is a
  \<open>put\<close> on that cell, \<open>Get\<close> returns the value put and that timestamp, both for the
  compare timestamp \<open>t1 - 1\<close> and for \<open>t1 + 1\<close>. The third result for \<open>t1 - 1\<close> is
  true unless \<open>t1\<close> is the smallest \<open>int64\<close>, where \<open>t1 - 1\<close> wraps around to the
  largest; the third result for \<open>t1 + 1\<close> is false unless \<open>t1\<close> is the largest
  \<open>int64\<close>, where \<open>t1 + 1\<close> wraps around to the smallest.
\<close>

theorem put_get_roundtrip:
  assumes "0 \<le> idx h" and "idx h < int (length (buckets p))"
    and "Put p h v now = (p1, t1)"
    and "\<forall>c \<in> set cs. \<not> is_put_on (idx h) c"
  shows "t1 = now \<and>
    Get (run p1 cs) h (t1 - 1) = (run p1 cs, v, t1, t1 \<noteq> MinInt64) \<and>
    Get (run p1 cs) h (t1 + 1) = (run p1 cs, v, t1, t1 = MaxInt64)"
proof -
  from assms(1,2) have l: "nat (idx h) < length (buckets p)" by simp
  from assms(3) have p: "put p (idx h) v now = (p1, t1)" by (simp add: Put_def)
  from put_cell(1) [OF assms(1) l p] have t1: "t1 = now" .
  show ?thesis
    by (simp add: t1 Get_def put_then_run [OF assms(1) l p assms(4)]
        pred_sless_iff succ_sless_iff)
qed

theorem put_get_roundtrip_witness:
  "0 \<le> idx handle_x \<and> idx handle_x < int (length (buckets pool_x)) \<and>
   Put pool_x handle_x (Some 10) 100 =
     (\<lparr>buckets = [\<lparr>name = ''x'', value = Some 10, timestamp = 100\<rparr>]\<rparr>, 100) \<and>
   \<not> is_put_on (idx handle_x) (CallBucket ''y'' :: nat call) \<and>
   \<not> is_put_on (idx handle_x) (CallPut 1 (Some 7) 42 :: nat call) \<and>
   Get (run \<lparr>buckets = [\<lparr>name = ''x'', value = Some (10::nat), timestamp = 100\<rparr>]\<rparr>
          [CallBucket ''y'', CallPut 1 (Some 7) 42]) handle_x (100 - 1) =
     (\<lparr>buckets = [\<lparr>name = ''x'', value = Some 10, timestamp = 100\<rparr>,
                  \<lparr>name = ''y'', value = Some 7, timestamp = 42\<rparr>]\<rparr>, Some 10, 100, True) \<and>
   Get (run \<lparr>buckets = [\<lparr>name = ''x'', value = Some (10::nat), timestamp = 100\<rparr>]\<rparr>
          [CallBucket ''y'', CallPut 1 (Some 7) 42]) handle_x (100 + 1) =
     (\<lparr>buckets = [\<lparr>name = ''x'', value = Some 10, timestamp = 100\<rparr>,
                  \<lparr>name = ''y'', value = Some 7, timestamp = 42\<rparr>]\<rparr>, Some 10, 100, False)"
  using put_get_roundtrip [of handle_x pool_x "Some 10" 100
      "\<lparr>buckets = [\<lparr>name = ''x'', value = Some 10, timestamp = 100\<rparr>]\<rparr>" 100
      "[CallBucket ''y'', CallPut 1 (Some 7) 42]"]
  by (simp add: pool_x_eq handle_x_eq Put_def put_def Bucket_def out_of_range_def
      MinInt64_def MaxInt64_def)

text \<open>
  C2 as it is worded fails when the clock reads the largest \<open>int64\<close>: the handle is
  valid, \<open>Put\<close> returns that reading, and \<open>Get(t1 + 1)\<close> reports the value as fresh.
\<close>

theorem put_get_roundtrip_counterexample:
  "0 \<le> idx handle_x \<and> idx handle_x < int (length (buckets pool_x)) \<and>
   snd (Put pool_x handle_x (Some 10) MaxInt64) = MaxInt64 \<and>
   Get (fst (Put pool_x handle_x (Some 10) MaxInt64)) handle_x (MaxInt64 + 1) \<noteq>
     (fst (Put pool_x handle_x (Some 10) MaxInt64), Some 10, MaxInt64, False) \<and>
   Get (fst (Put pool_x handle_x (Some 10) MaxInt64)) handle_x (MaxInt64 + 1) =
     (fst (Put pool_x handle_x (Some 10) MaxInt64), Some 10, MaxInt64, True)"
  by (simp add: pool_x_eq handle_x_eq Put_def put_def Get_def get_def out_of_range_def
      MaxInt64_def)

text \<open>
  C5, as the code has it. Each \<open>put\<close> on a cell in range returns the clock reading it
  took. So of two \<open>put\<close>s on one cell, the second made after the first and after any
  calls in between, the later returns a strictly greater timestamp exactly when the clock
  read strictly more at the later one; and a \<open>get\<close> made after them, and after any
  further calls none of which is a \<open>put\<close> on that cell, returns the later value and the
  later timestamp.
\<close>

theorem sequential_puts:
  assumes "0 \<le> i" and "i < int (length (buckets p))"
    and "put p i v1 n1 = (p1, t1)" and "put (run p1 cs1) i v2 n2 = (p2, t2)"
    and "\<forall>c \<in> set cs2. \<not> is_put_on i c"
  shows "t1 = n1 \<and> t2 = n2 \<and> (sint t1 < sint t2 \<longleftrightarrow> sint n1 < sint n2) \<and>
    get (run p2 cs2) i c = (run p2 cs2, v2, t2, sint c < sint t2)"
proof -
  from assms(1,2) have l: "nat i < length (buckets p)" by simp
  note a = put_cell [OF assms(1) l assms(3)]
  have "length (buckets p1) \<le> length (buckets (run p1 cs1))" by (rule run_length)
  with a(2) have l1: "nat i < length (buckets (run p1 cs1))" by simp
  note b = put_cell [OF assms(1) l1 assms(4)]
  show ?thesis
    by (simp add: a(1) b(1) put_then_run [OF assms(1) l1 assms(4) assms(5)] word_sless_alt)
qed

theorem sequential_puts_witness:
  "(0::int) \<le> 0 \<and> (0::int) < int (length (buckets pool_x)) \<and>
   put pool_x 0 (Some 1) 5 =
     (\<lparr>buckets = [\<lparr>name = ''x'', value = Some 1, timestamp = 5\<rparr>]\<rparr>, 5) \<and>
   put (run \<lparr>buckets = [\<lparr>name = ''x'', value = Some (1::nat), timestamp = 5\<rparr>]\<rparr> [CallGet 0 0])
       0 (Some 2) 9 =
     (\<lparr>buckets = [\<lparr>name = ''x'', value = Some 2, timestamp = 9\<rparr>]\<rparr>, 9) \<and>
   \<not> is_put_on 0 (CallBucket ''y'' :: nat call) \<and>
   sint (5 :: int64) < sint (9 :: int64) \<and>
   get (run \<lparr>buckets = [\<lparr>name = ''x'', value = Some (2::nat), timestamp = 9\<rparr>]\<rparr>
          [CallBucket ''y'']) 0 0 =
     (\<lparr>buckets = [\<lparr>name = ''x'', value = Some 2, timestamp = 9\<rparr>,
                  \<lparr>name = ''y'', value = None, timestamp = 0\<rparr>]\<rparr>, Some 2, 9, True)"
  using sequential_puts [where i = 0 and p = pool_x and ?v1.0 = "Some 1" and ?n1.0 = 5
      and ?p1.0 = "\<lparr>buckets = [\<lparr>name = ''x'', value = Some 1, timestamp = 5\<rparr>]\<rparr>"
      and ?t1.0 = 5 and ?cs1.0 = "[CallGet 0 0]" and ?v2.0 = "Some 2" and ?n2.0 = 9
      and ?p2.0 = "\<lparr>buckets = [\<lparr>name = ''x'', value = Some 2, timestamp = 9\<rparr>]\<rparr>"
      and ?t2.0 = 9 and ?cs2.0 = "[CallBucket ''y'']" and c = 0]
  by (simp add: pool_x_eq put_def get_def Bucket_def out_of_range_def)

text \<open>
  C5 as it is worded fails when the clock reads the same at both \<open>put\<close>s: the two
  timestamps are equal.
\<close>

theorem sequential_puts_counterexample:
  "0 \<le> (0::int) \<and> (0::int) < int (length (buckets pool_x)) \<and>
   snd (put pool_x 0 (Some 1) 5) = 5 \<and>
   snd (put (fst (put pool_x 0 (Some 1) 5)) 0 (Some 2) 5) = 5 \<and>
   \<not> sint (snd (put pool_x 0 (Some 1) 5)) <
      sint (snd (put (fst (put pool_x 0 (Some 1) 5)) 0 (Some 2) 5))"
  by (simp add: pool_x_eq put_def out_of_range_def)

text \<open>
  C10. For an identifier in range, \<open>put\<close> keeps the number of cells and the name of the
  cell, sets the cell's value and timestamp, and leaves every other cell as it was;
  \<open>get\<close> returns the pool it was given.
\<close>

theorem put_frame:
  assumes "0 \<le> i" and "i < int (length (buckets p))"
  shows "length (buckets (fst (put p i v now))) = length (buckets p) \<and>
    name (buckets (fst (put p i v now)) ! nat i) = name (buckets p ! nat i) \<and>
    value (buckets (fst (put p i v now)) ! nat i) = v \<and>
    timestamp (buckets (fst (put p i v now)) ! nat i) = now \<and>
    (\<forall>j < length (buckets p). j \<noteq> nat i \<longrightarrow>
        buckets (fst (put p i v now)) ! j = buckets p ! j) \<and>
    fst (get p k ts) = p"
proof -
  from assms have r: "\<not> out_of_range p i" by (simp add: out_of_range_def)
  then have "nat i < length (buckets p)" by (rule in_range_nat)
  then show ?thesis
    by (simp add: put_in_range [OF r] get_pool)
qed

theorem put_frame_witness:
  "(0::int) \<le> 1 \<and> (1::int) < int (length (buckets pool_xy)) \<and>
   length (buckets (fst (put pool_xy 1 (Some 7) 42))) = 2 \<and>
   name (buckets (fst (put pool_xy 1 (Some 7) 42)) ! 1) = ''y'' \<and>
   value (buckets (fst (put pool_xy 1 (Some 7) 42)) ! 1) = Some 7 \<and>
   timestamp (buckets (fst (put pool_xy 1 (Some 7) 42)) ! 1) = 42 \<and>
   buckets (fst (put pool_xy 1 (Some 7) 42)) ! 0 = buckets pool_xy ! 0 \<and>
   fst (get pool_xy 0 3) = pool_xy"
  using put_frame [of 1 pool_xy "Some 7" 42 0 3]
  by (simp add: pool_xy_eq)

subsection \<open>Resolving a name\<close>

text \<open>
  C7. Calling \<open>Bucket\<close> with a name twice in a row gives the same handle both times, and
  the second call leaves the pool as the first call left it, so the number of cells does
  not change.
\<close>

theorem Bucket_idempotent:
  "snd (Bucket (fst (Bucket p n)) n) = snd (Bucket p n) \<and>
   idx (snd (Bucket (fst (Bucket p n)) n)) = idx (snd (Bucket p n)) \<and>
   fst (Bucket (fst (Bucket p n)) n) = fst (Bucket p n) \<and>
   length (buckets (fst (Bucket (fst (Bucket p n)) n))) = length (buckets (fst (Bucket p n)))"
  using Bucket_found [OF Bucket_idx_scan, of p n] by simp

theorem Bucket_idempotent_witness:
  "Bucket pool_x ''y'' = (pool_xy, \<lparr>idx = 1\<rparr>) \<and> Bucket pool_xy ''y'' = (pool_xy, \<lparr>idx = 1\<rparr>)"
  using Bucket_idempotent [of pool_x "''y''"]
  by (simp add: pool_xy_eq pool_x_eq Bucket_def)

text \<open>
  C3 fails on the code. Two goroutines call \<open>Bucket("x")\<close> on a new pool; both run
  the loop before either creates its cell. Each then creates a cell: the pool ends with
  two cells named \<open>x\<close>, so the number of cells grows by two and the names are no longer
  all different, and the callers hold handles to different cells, 0 and 1.
\<close>

theorem Bucket_overlap_duplicates:
  "interleave (NewDataPool :: nat DataPool, [Ready ''x'', Ready ''x'']) [0, 1, 0, 1] =
     (\<lparr>buckets = [\<lparr>name = ''x'', value = None, timestamp = 0\<rparr>,
                  \<lparr>name = ''x'', value = None, timestamp = 0\<rparr>]\<rparr>,
      [Returned \<lparr>idx = 0\<rparr>, Returned \<lparr>idx = 1\<rparr>]) \<and>
   length (buckets (fst (interleave (NewDataPool :: nat DataPool, [Ready ''x'', Ready ''x''])
      [0, 1, 0, 1]))) = length (buckets (NewDataPool :: nat DataPool)) + 2 \<and>
   \<not> distinct (map name (buckets (fst (interleave (NewDataPool :: nat DataPool,
      [Ready ''x'', Ready ''x'']) [0, 1, 0, 1]))))"
  by (simp add: NewDataPool_def Bucket_scan_def Bucket_append_def)

text \<open>
  C8. If the names of a pool's cells are all different, then after any calls of
  \<open>Bucket\<close>, \<open>get\<close> and \<open>put\<close> they are still all different, the pool has at least as
  many cells, and the names of the cells it had are the same at the same positions.
  \<open>Bucket\<close> leaves the cells as they were or adds one cell, with the name asked for, at
  the end; \<open>put\<close> keeps the number of cells and \<open>get\<close> returns the pool it was given.
\<close>

theorem calls_preserve_invariant:
  assumes "distinct (map name (buckets p))"
  shows "distinct (map name (buckets (run p cs))) \<and>
    length (buckets p) \<le> length (buckets (run p cs)) \<and>
    take (length (buckets p)) (map name (buckets (run p cs))) = map name (buckets p) \<and>
    (\<forall>n. buckets (fst (Bucket p n)) = buckets p \<or>
       buckets (fst (Bucket p n)) = buckets p @ [\<lparr>name = n, value = None, timestamp = 0\<rparr>]) \<and>
    (\<forall>i v now. length (buckets (fst (put p i v now))) = length (buckets p)) \<and>
    (\<forall>i ts. fst (get p i ts) = p)"
proof -
  have b: "\<forall>n. buckets (fst (Bucket p n)) = buckets p \<or>
       buckets (fst (Bucket p n)) = buckets p @ [\<lparr>name = n, value = None, timestamp = 0\<rparr>]"
    using Bucket_buckets [of p] by blast
  show ?thesis
    using assms b by (simp add: run_distinct run_length run_take_names put_length get_pool)
qed

theorem calls_preserve_invariant_witness:
  "distinct (map name (buckets pool_x)) \<and>
   map name (buckets (run pool_x [CallBucket ''y'', CallPut 0 (Some 3) 8, CallBucket ''x'',
      CallGet 1 0])) = [''x'', ''y''] \<and>
   distinct (map name (buckets (run pool_x [CallBucket ''y'', CallPut 0 (Some 3) 8,
      CallBucket ''x'', CallGet 1 0])))"
  using calls_preserve_invariant [of pool_x
      "[CallBucket ''y'', CallPut 0 (Some 3) 8, CallBucket ''x'', CallGet 1 0]"]
  by (simp add: pool_x_eq Bucket_def get_def put_def out_of_range_def)

text \<open>
  C9. The handle that \<open>Bucket\<close> returns has an identifier in range for the pool as
  \<open>Bucket\<close> leaves it, and the identifier stays in range after any further calls on the
  pool: the test that opens \<open>get\<close> and \<open>put\<close> is false for it, so \<open>Get\<close> reads the
  cell and \<open>Put\<close> writes it.
\<close>

theorem handle_in_range:
  assumes "Bucket p n = (p1, h)"
  shows "0 \<le> idx h \<and> idx h < int (length (buckets (run p1 cs))) \<and>
    \<not> out_of_range (run p1 cs) (idx h) \<and>
    Get (run p1 cs) h ts =
      (run p1 cs, value (buckets (run p1 cs) ! nat (idx h)),
       timestamp (buckets (run p1 cs) ! nat (idx h)),
       ts <s timestamp (buckets (run p1 cs) ! nat (idx h))) \<and>
    Put (run p1 cs) h v now =
      ((run p1 cs)\<lparr>buckets := (buckets (run p1 cs))
          [nat (idx h) := (buckets (run p1 cs) ! nat (idx h))\<lparr>value := v, timestamp := now\<rparr>]\<rparr>,
       now)"
proof -
  from assms have "\<not> out_of_range p1 (idx h)"
    using Bucket_idx_in_range [of p n] by simp
  then have "0 \<le> idx h" and "idx h < int (length (buckets p1))"
    by (simp_all add: out_of_range_def)
  moreover have "length (buckets p1) \<le> length (buckets (run p1 cs))"
    by (rule run_length)
  ultimately have r: "0 \<le> idx h" "idx h < int (length (buckets (run p1 cs)))"
    by simp_all
  then have o: "\<not> out_of_range (run p1 cs) (idx h)"
    by (simp add: out_of_range_def)
  show ?thesis
    using r o by (simp add: Get_def Put_def put_in_range [OF o] get_def)
qed

theorem handle_in_range_witness:
  "Bucket pool_x ''y'' = (pool_xy, \<lparr>idx = 1\<rparr>) \<and>
   \<not> out_of_range (run pool_xy [CallBucket ''z'', CallPut 0 (Some 3) 8]) 1 \<and>
   Put (run pool_xy [CallBucket ''z'', CallPut 0 (Some 3) 8]) \<lparr>idx = 1\<rparr> (Some 4) 9 =
     (\<lparr>buckets = [\<lparr>name = ''x'', value = Some 3, timestamp = 8\<rparr>,
                  \<lparr>name = ''y'', value = Some 4, timestamp = 9\<rparr>,
                  \<lparr>name = ''z'', value = None, timestamp = 0\<rparr>]\<rparr>, 9)"
  using handle_in_range [of pool_x "''y''" pool_xy "\<lparr>idx = 1\<rparr>"
      "[CallBucket ''z'', CallPut 0 (Some 3) 8]" 0 "Some 4" 9]
  by (simp add: pool_xy_eq pool_x_eq Bucket_def put_def out_of_range_def)

end
